theory Spec2Isabelle
  imports Main "HOL-Library.Word"
begin

unbundle bit_operations_syntax

section \<open>Data model (data-structures.hpp, data-structures.cpp)\<close>

text \<open>
  \<^verbatim>\<open>using word = uintptr_t; using version = uint64_t;\<close> on a 64-bit target, where
  \<^verbatim>\<open>unsigned int\<close> has 32 bits (the type \<^verbatim>\<open>word\<close> is named \<open>word_t\<close> here). Addresses
  (\<^verbatim>\<open>word*\<close>, \<^verbatim>\<open>void*\<close>) are byte addresses of the same width; the null pointer is 0.
\<close>

type_synonym word_t = "64 word"
type_synonym version = "64 word"
type_synonym addr = "64 word"

text \<open>\<^verbatim>\<open>VersionedWriteLock\<close>: one atomic word, bit 0 the lock bit, the rest the version.\<close>

record VersionedWriteLock =
  version_and_lock :: word_t

text \<open>\<^verbatim>\<open>struct WriteOperation { word* source; word val; }\<close>\<close>

record WriteOperation =
  source :: addr
  val :: word_t

text \<open>
  \<^verbatim>\<open>struct Transaction\<close>. The write set is an \<^verbatim>\<open>unordered_map<word*, WriteOperation>\<close>:
  an association list with distinct keys, whose order stands for the iteration order of
  the container. The read set is the set of addresses \<^verbatim>\<open>tm_read\<close> inserts into. The
  \<^verbatim>\<open>region\<close> back pointer is the state that every operation receives.
\<close>

record Transaction =
  rv :: version
  read_set :: "addr list"
  write_set :: "(addr \<times> WriteOperation) list"
  is_ro :: bool

text \<open>
  The shared state: the region (\<^verbatim>\<open>struct MemoryRegion\<close> as \<^verbatim>\<open>tm.cpp\<close> uses it: lock
  table, list lock, segment list, size, alignment, start), the global version clock
  \<^verbatim>\<open>gvc\<close>, and the memory, a map from the address of a word to its value (shared and
  private memory are one address space). \<^verbatim>\<open>macros.hpp\<close> is not among the sources, so the
  length \<^verbatim>\<open>NUM_LOCKS\<close> of the lock table is a parameter carried by the state.
\<close>

record tm_state =
  NUM_LOCKS :: nat
  locks :: "nat \<Rightarrow> VersionedWriteLock"
  list_lock :: VersionedWriteLock
  seg_list :: "addr list"
  region_size :: nat
  region_align :: nat
  region_start :: addr
  gvc :: version
  mem :: "addr \<Rightarrow> word_t"

section \<open>Versioned write lock (data-structures.cpp)\<close>

text \<open>
  \<^verbatim>\<open>lock()\<close>: \<^verbatim>\<open>expected = load() & ~1; desired = expected | 1;\<close> then one
  compare-and-swap. The model is sequential: the exchange succeeds exactly when the stored
  word equals \<^verbatim>\<open>expected\<close>, that is when the lock bit is clear (a spurious failure of
  \<^verbatim>\<open>compare_exchange_weak\<close> is not modelled); a failed exchange leaves the word as it is.
\<close>

definition lock :: "VersionedWriteLock \<Rightarrow> bool \<times> VersionedWriteLock" where
  "lock l =
     (let expected = version_and_lock l AND NOT 1;
          desired = expected OR 1
      in if version_and_lock l = expected
         then (True, l\<lparr>version_and_lock := desired\<rparr>)
         else (False, l))"

text \<open>
  \<^verbatim>\<open>unlock()\<close>: \<^verbatim>\<open>new_value = (current & ~1u) + 2\<close>. The mask \<^verbatim>\<open>~1u\<close> is an
  \<^verbatim>\<open>unsigned int\<close> (32 bits), widened with zeros to the width of \<^verbatim>\<open>word\<close>.
\<close>

definition mask_1u :: word_t where
  "mask_1u = ucast (NOT (1 :: 32 word))"

definition unlock :: "VersionedWriteLock \<Rightarrow> VersionedWriteLock" where
  "unlock l =
     (let current = version_and_lock l;
          new_value = (current AND mask_1u) + 2
      in l\<lparr>version_and_lock := new_value\<rparr>)"

definition getVersion :: "VersionedWriteLock \<Rightarrow> word_t" where
  "getVersion l = drop_bit 1 (version_and_lock l)"

definition isLocked :: "VersionedWriteLock \<Rightarrow> bool" where
  "isLocked l = (version_and_lock l AND 1 \<noteq> 0)"

definition setVersion :: "version \<Rightarrow> VersionedWriteLock \<Rightarrow> VersionedWriteLock" where
  "setVersion v l = l\<lparr>version_and_lock := push_bit 1 v OR 1\<rparr>"

text \<open>A caller's sequence of operations on one lock, run from left to right.\<close>

datatype vwl_op = Lock | SetVersion version | Unlock

fun vwl_step :: "vwl_op \<Rightarrow> VersionedWriteLock \<Rightarrow> VersionedWriteLock" where
  "vwl_step Lock l = snd (lock l)"
| "vwl_step (SetVersion v) l = setVersion v l"
| "vwl_step Unlock l = unlock l"

fun vwl_run :: "vwl_op list \<Rightarrow> VersionedWriteLock \<Rightarrow> VersionedWriteLock" where
  "vwl_run [] l = l"
| "vwl_run (op # ops) l = vwl_run ops (vwl_step op l)"

section \<open>Helpers that tm.cpp calls (helpers.hpp)\<close>

text \<open>
  \<^verbatim>\<open>helpers.hpp\<close> is not among the sources. The operations of \<^verbatim>\<open>tm.cpp\<close> below take its two
  functions as parameters, named as the source names them:
  \<^item> \<^verbatim>\<open>validateRead(shared, addr, bound)\<close>, a test on the shared state;
  \<^item> \<^verbatim>\<open>freeHeldLocks(locks_held)\<close>, which receives the list of the locks taken (pointers
    into the lock table, here their indices) and acts on the lock table.
\<close>

type_synonym validateRead_t = "tm_state \<Rightarrow> addr \<Rightarrow> version \<Rightarrow> bool"
type_synonym freeHeldLocks_t =
  "nat list \<Rightarrow> (nat \<Rightarrow> VersionedWriteLock) \<Rightarrow> (nat \<Rightarrow> VersionedWriteLock)"

text \<open>The stripe of an address: \<^verbatim>\<open>(word)target_addr % NUM_LOCKS\<close>.\<close>

definition stripe :: "tm_state \<Rightarrow> addr \<Rightarrow> nat" where
  "stripe s a = unat a mod NUM_LOCKS s"

text \<open>
  Modelled from the spec: \<^verbatim>\<open>validateRead\<close> of the missing \<^verbatim>\<open>helpers.hpp\<close>. The spec's read
  path accepts an address when the lock of its stripe is not held and its version is at
  most the bound (section 4.E, phase 2, step 4).
\<close>

definition validateRead_spec :: validateRead_t where
  "validateRead_spec s a bound =
     (let l = locks s (stripe s a)
      in \<not> isLocked l \<and> getVersion l \<le> bound)"

text \<open>
  Modelled from the spec: \<^verbatim>\<open>unlock_restore()\<close>, the operation of the spec's versioned
  write lock that an aborting commit releases its locks with: "release without changing
  the version" (section 4.B). The lock bit is cleared and the version bits are kept. The
  source's own \<^verbatim>\<open>unlock()\<close> above is a different operation: it also adds one to the
  version.
\<close>

definition unlock_restore :: "VersionedWriteLock \<Rightarrow> VersionedWriteLock" where
  "unlock_restore l = l\<lparr>version_and_lock := version_and_lock l AND NOT 1\<rparr>"

text \<open>
  Modelled from the spec: \<^verbatim>\<open>freeHeldLocks\<close> of the missing \<^verbatim>\<open>helpers.hpp\<close>. The spec has an
  aborting commit "release all previously acquired locks with \<^verbatim>\<open>unlock_restore\<close>"
  (section 4.E, phases 3 and 5), so the helper applies \<^verbatim>\<open>unlock_restore\<close> to each lock of
  the list in turn. On the commit path \<^verbatim>\<open>tm_end\<close> calls the same helper after
  \<^verbatim>\<open>setVersion(wv)\<close>, which leaves the word \<open>(wv, 0)\<close> that the spec's
  \<^verbatim>\<open>unlock_release(wv)\<close> stores (phase 6).
\<close>

fun freeHeldLocks_spec :: freeHeldLocks_t where
  "freeHeldLocks_spec [] tbl = tbl"
| "freeHeldLocks_spec (i # locks_held) tbl =
     freeHeldLocks_spec locks_held (tbl(i := unlock_restore (tbl i)))"

section \<open>Transaction manager (tm.cpp)\<close>

definition tm_start :: "tm_state \<Rightarrow> addr" where
  "tm_start s = region_start s"

definition tm_size :: "tm_state \<Rightarrow> nat" where
  "tm_size s = region_size s"

definition tm_align :: "tm_state \<Rightarrow> nat" where
  "tm_align s = region_align s"

text \<open>
  \<^verbatim>\<open>tm_begin\<close>: a new transaction with \<^verbatim>\<open>rv = gvc.load()\<close>; \<open>None\<close> is \<^verbatim>\<open>invalid_tx\<close>,
  returned when the allocation fails (\<open>allocated\<close> tells whether \<^verbatim>\<open>new\<close> succeeded).
\<close>

definition tm_begin :: "tm_state \<Rightarrow> bool \<Rightarrow> bool \<Rightarrow> Transaction option" where
  "tm_begin s ro allocated =
     (if \<not> allocated then None
      else Some \<lparr>rv = gvc s, read_set = [], write_set = [], is_ro = ro\<rparr>)"

subsection \<open>\<^verbatim>\<open>tm_end\<close>\<close>

text \<open>
  (3) Lock the write set: one \<^verbatim>\<open>lock()\<close> per entry, in iteration order; on the first
  failure the loop stops with the locks taken so far in \<^verbatim>\<open>locks_held\<close>.
\<close>

fun lock_write_set ::
  "tm_state \<Rightarrow> (addr \<times> WriteOperation) list \<Rightarrow> nat list \<Rightarrow> bool \<times> nat list \<times> tm_state"
where
  "lock_write_set s [] locks_held = (True, locks_held, s)"
| "lock_write_set s (keyval # rest) locks_held =
     (let target_addr = fst keyval;
          i = stripe s target_addr;
          r = lock (locks s i)
      in if \<not> fst r then (False, locks_held, s)
         else lock_write_set (s\<lparr>locks := (locks s)(i := snd r)\<rparr>) rest (locks_held @ [i]))"

text \<open>(5) Validate the read set against the bound the caller passes.\<close>

fun validate_read_set :: "validateRead_t \<Rightarrow> tm_state \<Rightarrow> addr list \<Rightarrow> version \<Rightarrow> bool" where
  "validate_read_set validateRead s [] bound = True"
| "validate_read_set validateRead s (read # rest) bound =
     (if \<not> validateRead s read bound then False
      else validate_read_set validateRead s rest bound)"

text \<open>(6) Store every pending value and set the version of its stripe's lock.\<close>

fun commit_write_set :: "tm_state \<Rightarrow> (addr \<times> WriteOperation) list \<Rightarrow> version \<Rightarrow> tm_state" where
  "commit_write_set s [] wv = s"
| "commit_write_set s (keyval # rest) wv =
     (let target_addr = fst keyval;
          v = val (snd keyval);
          i = stripe s target_addr
      in commit_write_set
           (s\<lparr>mem := (mem s)(target_addr := v),
              locks := (locks s)(i := setVersion wv (locks s i))\<rparr>) rest wv)"

text \<open>
  \<^verbatim>\<open>tm_end\<close> returns the boolean, the state, and the transaction context: \<open>None\<close> once
  \<^verbatim>\<open>delete txn\<close> has run (the commit path only), the context itself on the two abort
  paths, which return without deleting it. \<^verbatim>\<open>wv = gvc.fetch_add(1)\<close> is the value of
  the clock before the increment.
\<close>

definition tm_end ::
  "validateRead_t \<Rightarrow> freeHeldLocks_t \<Rightarrow> tm_state \<Rightarrow> Transaction
     \<Rightarrow> bool \<times> tm_state \<times> Transaction option"
where
  "tm_end validateRead freeHeldLocks s txn =
     (case lock_write_set s (write_set txn) [] of
        (locked, locks_held, s1) \<Rightarrow>
          if \<not> locked
          then (False, s1\<lparr>locks := freeHeldLocks locks_held (locks s1)\<rparr>, Some txn)
          else
            let wv = gvc s1;
                s2 = s1\<lparr>gvc := gvc s1 + 1\<rparr>
            in if \<not> validate_read_set validateRead s2 (read_set txn) (wv + 1)
               then (False, s2\<lparr>locks := freeHeldLocks locks_held (locks s2)\<rparr>, Some txn)
               else
                 let s3 = commit_write_set s2 (write_set txn) wv
                 in (False, s3\<lparr>locks := freeHeldLocks locks_held (locks s3)\<rparr>, None))"

subsection \<open>\<^verbatim>\<open>tm_read\<close>\<close>

text \<open>
  \<^verbatim>\<open>source_start + i\<close> on a \<^verbatim>\<open>word*\<close> is the byte address advanced by \<open>8 * i\<close>. The loops
  run over the word indices \<open>0, \<dots>, num_words - 1\<close>. A failed validation deletes the
  transaction and returns false at once.
\<close>

definition word_at :: "addr \<Rightarrow> nat \<Rightarrow> addr" where
  "word_at start i = start + 8 * of_nat i"

fun tm_read_ro ::
  "validateRead_t \<Rightarrow> tm_state \<Rightarrow> Transaction \<Rightarrow> addr \<Rightarrow> addr \<Rightarrow> nat list
     \<Rightarrow> bool \<times> tm_state \<times> Transaction option"
where
  "tm_read_ro validateRead s txn source_start target_start [] = (True, s, Some txn)"
| "tm_read_ro validateRead s txn source_start target_start (i # rest) =
     (let source_addr = word_at source_start i;
          target_addr = word_at target_start i;
          s1 = s\<lparr>mem := (mem s)(target_addr := mem s source_addr)\<rparr>
      in if \<not> validateRead s1 source_addr (rv txn) then (False, s1, None)
         else tm_read_ro validateRead s1 txn source_start target_start rest)"

fun tm_read_rw ::
  "validateRead_t \<Rightarrow> tm_state \<Rightarrow> Transaction \<Rightarrow> addr \<Rightarrow> addr \<Rightarrow> nat list
     \<Rightarrow> bool \<times> tm_state \<times> Transaction option"
where
  "tm_read_rw validateRead s txn source_start target_start [] = (True, s, Some txn)"
| "tm_read_rw validateRead s txn source_start target_start (i # rest) =
     (let source_addr = word_at source_start i;
          target_addr = word_at target_start i
      in if \<not> validateRead s source_addr (rv txn) then (False, s, None)
         else
           let v = (case map_of (write_set txn) source_addr of
                      Some w \<Rightarrow> val w
                    | None \<Rightarrow> mem s source_addr);
               s1 = s\<lparr>mem := (mem s)(target_addr := v)\<rparr>
           in if \<not> validateRead s1 source_addr (rv txn) then (False, s1, None)
              else tm_read_rw validateRead s1
                     (txn\<lparr>read_set := List.insert source_addr (read_set txn)\<rparr>)
                     source_start target_start rest)"

definition tm_read ::
  "validateRead_t \<Rightarrow> tm_state \<Rightarrow> Transaction \<Rightarrow> addr \<Rightarrow> nat \<Rightarrow> addr
     \<Rightarrow> bool \<times> tm_state \<times> Transaction option"
where
  "tm_read validateRead s txn source_p size_p target_p =
     (let num_words = size_p div tm_align s
      in if is_ro txn
         then tm_read_ro validateRead s txn source_p target_p [0..<num_words]
         else tm_read_rw validateRead s txn source_p target_p [0..<num_words])"

subsection \<open>\<^verbatim>\<open>tm_write\<close>\<close>

text \<open>
  \<^verbatim>\<open>unordered_map::insert_or_assign\<close>: when the key is present its entry is overwritten
  where it stands, otherwise a new entry is added. The standard leaves the iteration order
  of the container open; the usual implementation links a new node at the head of its
  list, so the new entry comes first here. No property below depends on the order.
\<close>

fun assign :: "'k \<Rightarrow> 'v \<Rightarrow> ('k \<times> 'v) list \<Rightarrow> ('k \<times> 'v) list" where
  "assign k v [] = []"
| "assign k v (p # ps) = (if fst p = k then (k, v) # ps else p # assign k v ps)"

definition insert_or_assign :: "'k \<Rightarrow> 'v \<Rightarrow> ('k \<times> 'v) list \<Rightarrow> ('k \<times> 'v) list" where
  "insert_or_assign k v ps =
     (case map_of ps k of
        None \<Rightarrow> (k, v) # ps
      | Some _ \<Rightarrow> assign k v ps)"

fun tm_write_words :: "tm_state \<Rightarrow> Transaction \<Rightarrow> addr \<Rightarrow> addr \<Rightarrow> nat list \<Rightarrow> Transaction" where
  "tm_write_words s txn source_start target_start [] = txn"
| "tm_write_words s txn source_start target_start (i # rest) =
     (let source_addr = word_at source_start i;
          target_addr = word_at target_start i;
          v = mem s source_addr
      in tm_write_words s
           (txn\<lparr>write_set :=
                  insert_or_assign target_addr \<lparr>source = source_addr, val = v\<rparr> (write_set txn)\<rparr>)
           source_start target_start rest)"

definition tm_write ::
  "tm_state \<Rightarrow> Transaction \<Rightarrow> addr \<Rightarrow> nat \<Rightarrow> addr \<Rightarrow> bool \<times> tm_state \<times> Transaction option"
where
  "tm_write s txn source_p size_p target_p =
     (let num_words = size_p div tm_align s
      in (True, s, Some (tm_write_words s txn source_p target_p [0..<num_words])))"

subsection \<open>\<^verbatim>\<open>tm_alloc\<close> and \<^verbatim>\<open>tm_free\<close>\<close>

text \<open>\<^verbatim>\<open>enum class Alloc\<close> of the interface, as \<^verbatim>\<open>tm.cpp\<close> uses it.\<close>

datatype Alloc = Alloc_success | Alloc_abort | Alloc_nomem

text \<open>\<^verbatim>\<open>memset(new_seg, 0, size)\<close> on the words of the segment.\<close>

fun memset_zero :: "(addr \<Rightarrow> word_t) \<Rightarrow> addr \<Rightarrow> nat list \<Rightarrow> (addr \<Rightarrow> word_t)" where
  "memset_zero m start [] = m"
| "memset_zero m start (i # rest) = memset_zero (m(word_at start i := 0)) start rest"

text \<open>
  \<^verbatim>\<open>tm_alloc\<close>: \<open>new_seg\<close> is what the host's \<^verbatim>\<open>aligned_alloc\<close> returned (0 for the null
  pointer). The transaction handle is an unused parameter of the source, so the context
  is returned as it came on every path.
\<close>

definition tm_alloc ::
  "tm_state \<Rightarrow> Transaction \<Rightarrow> nat \<Rightarrow> addr \<Rightarrow> addr \<Rightarrow> Alloc \<times> tm_state \<times> Transaction option"
where
  "tm_alloc s txn size_p target_p new_seg =
     (if new_seg = 0 then (Alloc_nomem, s, Some txn)
      else
        let r = lock (list_lock s)
        in if \<not> fst r then (Alloc_abort, s, Some txn)
           else
             let s1 = s\<lparr>list_lock := snd r, seg_list := seg_list s @ [new_seg]\<rparr>;
                 s2 = s1\<lparr>list_lock := unlock (list_lock s1)\<rparr>;
                 s3 = s2\<lparr>mem := memset_zero (mem s2) new_seg [0..<size_p div 8]\<rparr>;
                 s4 = s3\<lparr>mem := (mem s3)(target_p := new_seg)\<rparr>
             in (Alloc_success, s4, Some txn))"

text \<open>\<^verbatim>\<open>tm_free\<close>: every parameter is unused; the body is \<^verbatim>\<open>return false\<close>.\<close>

definition tm_free :: "tm_state \<Rightarrow> Transaction \<Rightarrow> addr \<Rightarrow> bool \<times> tm_state \<times> Transaction option" where
  "tm_free s txn target_p = (False, s, Some txn)"

section \<open>Definitions used to state the properties\<close>

text \<open>
  A step of a caller is admissible when it keeps to the discipline of the lock: a
  \<^verbatim>\<open>setVersion\<close> installs a version that is at least the current one (and fits the 63
  bits of the field), and an \<^verbatim>\<open>unlock\<close> finds a lock word below \<open>2^32\<close>.
\<close>

fun admissible_step :: "vwl_op \<Rightarrow> VersionedWriteLock \<Rightarrow> bool" where
  "admissible_step Lock l = True"
| "admissible_step (SetVersion v) l = (getVersion l \<le> v \<and> v < 2 ^ 63)"
| "admissible_step Unlock l = (version_and_lock l < 2 ^ 32)"

fun admissible :: "vwl_op list \<Rightarrow> VersionedWriteLock \<Rightarrow> bool" where
  "admissible [] l = True"
| "admissible (op # ops) l = (admissible_step op l \<and> admissible ops (vwl_step op l))"

text \<open>
  A freshly created region, as \<^verbatim>\<open>tm_create\<close> leaves it: every lock word 0, the memory
  zeroed, the clock at 0. It has 1000 locks, a first segment of 4096 bytes at address 4096
  and alignment 8, so the words at 4096 and 4104 fall on stripes 96 and 104, and the words
  at 4096 and 5096 both on stripe 96.
\<close>

definition st0 :: tm_state where
  "st0 = \<lparr>NUM_LOCKS = 1000, locks = (\<lambda>_. \<lparr>version_and_lock = 0\<rparr>),
          list_lock = \<lparr>version_and_lock = 0\<rparr>, seg_list = [],
          region_size = 4096, region_align = 8, region_start = 4096,
          gvc = 0, mem = (\<lambda>_. 0)\<rparr>"

text \<open>A read-write transaction begun at clock 0 that has written \<open>0xAA\<close> to the word at 4096.\<close>

definition tx_single_write :: Transaction where
  "tx_single_write =
     \<lparr>rv = 0, read_set = [],
      write_set = [(4096, \<lparr>source = 64, val = 0xAA\<rparr>)], is_ro = False\<rparr>"

text \<open>
  The read-invalidation scenario: a transaction began at clock 5 and read the word at
  4096; since then another commit has left stripe 96 at version 6 and the clock at 6. The
  transaction has also written the word at 4104.
\<close>

definition st_stale :: tm_state where
  "st_stale = st0\<lparr>gvc := 6, locks := (locks st0)(96 := \<lparr>version_and_lock = 12\<rparr>)\<rparr>"

definition tx_stale_read :: Transaction where
  "tx_stale_read =
     \<lparr>rv = 5, read_set = [4096],
      write_set = [(4104, \<lparr>source = 64, val = 0xAA\<rparr>)], is_ro = False\<rparr>"



text \<open>A transaction that has written two words of the same stripe.\<close>

definition tx_same_stripe :: Transaction where
  "tx_same_stripe =
     \<lparr>rv = 0, read_set = [],
      write_set = [(4096, \<lparr>source = 64, val = 1\<rparr>), (5096, \<lparr>source = 72, val = 2\<rparr>)],
      is_ro = False\<rparr>"

text \<open>
  The read-after-write scenario: a transaction that has written \<open>0x11\<close> to the word at
  4096 and read nothing yet.
\<close>

definition tx_buffered :: Transaction where
  "tx_buffered =
     \<lparr>rv = 0, read_set = [],
      write_set = [(4096, \<lparr>source = 64, val = 0x11\<rparr>)], is_ro = False\<rparr>"

text \<open>
  A region whose private words at 64 and 72 hold \<open>0x11\<close> and \<open>0x22\<close>, and a transaction
  that has just begun on it.
\<close>

definition st_src :: tm_state where
  "st_src = st0\<lparr>mem := (mem st0)(64 := 0x11, 72 := 0x22)\<rparr>"

definition tx_fresh :: Transaction where
  "tx_fresh = \<lparr>rv = 0, read_set = [], write_set = [], is_ro = False\<rparr>"

text \<open>The same region created with alignment 16 (\<^verbatim>\<open>tm_create(4096, 16)\<close>).\<close>

definition st_align16 :: tm_state where
  "st_align16 = st_src\<lparr>region_align := 16\<rparr>"

section \<open>The versioned write lock\<close>

lemma mask_1u_val: "mask_1u = 0xFFFFFFFE"
  by (simp add: mask_1u_def)

lemma and_not_mask_word: "(w :: 64 word) AND NOT (mask k) = push_bit k (drop_bit k w)"
  by (rule bit_eqI) (auto simp: bit_simps)

lemma getVersion_div: "getVersion l = version_and_lock l div 2"
  by (simp add: getVersion_def drop_bit_eq_div)

lemma clear_bit0: "(w :: 64 word) AND NOT 1 = 2 * (w div 2)"
  using and_not_mask_word [of w 1]
  by (simp add: push_bit_eq_mult drop_bit_eq_div mult.commute)

lemma mask_1u_split: "mask_1u = mask 32 AND NOT 1"
  by (simp add: mask_1u_def mask_eq_exp_minus_1)

lemma and_mask_1u_small:
  assumes "(w :: 64 word) < 2 ^ 32"
  shows "w AND mask_1u = 2 * (w div 2)"
proof -
  have "w AND mask 32 = w" using assms by (simp add: less_mask_eq)
  then have "w AND mask_1u = w AND NOT 1"
    unfolding mask_1u_split by (metis and.assoc)
  then show ?thesis by (simp only: clear_bit0)
qed

lemma unat_half: "unat ((w :: 64 word) div 2) = unat w div 2"
  by (simp add: unat_div)

lemma half_double:
  assumes "(v :: 64 word) < 2 ^ 63"
  shows "(2 * v) div 2 = v"
proof -
  have "unat v < 2 ^ 63" using assms by (simp add: word_less_nat_alt)
  then have "unat (2 * v) = 2 * unat v"
    by (simp add: unat_word_ariths)
  then have "unat ((2 * v) div 2) = unat v"
    by (simp add: unat_half)
  then show ?thesis by (rule word_unat_eq_iff [THEN iffD2])
qed

lemma double_or_1: "(2 * (v :: 64 word)) OR 1 = 2 * v + 1"
  by (simp add: or_one_eq)

lemma half_double_or:
  assumes "(v :: 64 word) < 2 ^ 63"
  shows "(2 * v OR 1) div 2 = v"
proof -
  have "unat v < 2 ^ 63" using assms by (simp add: word_less_nat_alt)
  then have "unat (2 * v + 1) = 2 * unat v + 1"
    by (simp add: unat_word_ariths)
  then have "unat ((2 * v + 1) div 2) = unat v"
    by (simp add: unat_half)
  then have "(2 * v + 1) div 2 = v" by (rule word_unat_eq_iff [THEN iffD2])
  then show ?thesis by (simp only: double_or_1)
qed

lemma isLocked_iff_odd: "isLocked l \<longleftrightarrow> odd (version_and_lock l)"
  by (simp add: isLocked_def and_one_eq mod_2_eq_odd)

text \<open>\<^verbatim>\<open>lock()\<close> succeeds exactly on a lock that is not held, and sets the lock bit.\<close>

lemma lock_iff:
  "lock l = (if isLocked l then (False, l)
             else (True, l\<lparr>version_and_lock := version_and_lock l OR 1\<rparr>))"
proof -
  have "version_and_lock l = version_and_lock l AND NOT 1 \<longleftrightarrow> version_and_lock l AND 1 = 0"
    by (metis (no_types, lifting) and.assoc and.right_neutral and_eq_not_not_or
        bit.compl_zero bit.conj_cancel_left bit.disj_conj_distrib)
  then show ?thesis
    by (auto simp: lock_def isLocked_def Let_def)
qed

lemma getVersion_lock: "getVersion (snd (lock l)) = getVersion l"
  by (auto simp: lock_def getVersion_def Let_def)

lemma getVersion_setVersion: "v < 2 ^ 63 \<Longrightarrow> getVersion (setVersion v l) = v"
  using half_double_or [of v]
  by (simp add: setVersion_def getVersion_div push_bit_eq_mult mult.commute)

lemma unlock_word_small:
  assumes "version_and_lock l < 2 ^ 32"
  shows "version_and_lock (unlock l) = 2 * (getVersion l + 1)"
  using and_mask_1u_small [OF assms]
  by (simp add: unlock_def getVersion_div Let_def)

text \<open>On a lock word below \<open>2^32\<close>, \<^verbatim>\<open>unlock()\<close> raises the version by one and frees the lock.\<close>

lemma unlock_small:
  assumes "version_and_lock l < 2 ^ 32"
  shows "getVersion (unlock l) = getVersion l + 1" and "\<not> isLocked (unlock l)"
proof -
  note e = unlock_word_small [OF assms]
  have "unat (getVersion l) < 2 ^ 31"
    using assms by (simp add: getVersion_div unat_half word_less_nat_alt)
  then have "getVersion l + 1 < 2 ^ 63"
    by (simp add: word_less_nat_alt unat_word_ariths)
  then have "(2 * (getVersion l + 1)) div 2 = getVersion l + 1"
    by (rule half_double)
  then show "getVersion (unlock l) = getVersion l + 1"
    using e by (simp only: getVersion_div)
  show "\<not> isLocked (unlock l)"
    using e by (simp add: isLocked_iff_odd)
qed

lemma version_le_succ:
  assumes "version_and_lock l < 2 ^ 32"
  shows "getVersion l \<le> getVersion l + 1"
proof -
  have "unat (getVersion l) < 2 ^ 31"
    using assms by (simp add: getVersion_div unat_half word_less_nat_alt)
  then show ?thesis by (simp add: word_le_nat_alt unat_word_ariths)
qed

lemma step_mono: "admissible_step op l \<Longrightarrow> getVersion l \<le> getVersion (vwl_step op l)"
  by (cases op)
    (simp_all add: getVersion_lock getVersion_setVersion unlock_small(1) version_le_succ)

text \<open>
  Beyond \<open>2^32\<close> the 32-bit mask of \<^verbatim>\<open>unlock()\<close> cuts the version: a lock at version
  \<open>2^32\<close> that is taken and released comes back at version 1.
\<close>

lemma unlock_truncates_version:
  "getVersion \<lparr>version_and_lock = 2 ^ 33\<rparr> = 2 ^ 32
   \<and> getVersion (vwl_run [Lock, Unlock] \<lparr>version_and_lock = 2 ^ 33\<rparr>) = 1"
  by (simp add: lock_def unlock_def setVersion_def getVersion_def mask_1u_def)

text \<open>
  C7, as the code has it: over a sequence of \<^verbatim>\<open>lock\<close>, \<^verbatim>\<open>setVersion\<close> and \<^verbatim>\<open>unlock\<close>
  operations in which every step is admissible (each \<^verbatim>\<open>setVersion(v)\<close> has \<open>v\<close> at least
  the current version, each \<^verbatim>\<open>unlock\<close> finds a lock word below \<open>2^32\<close>), the version that
  \<^verbatim>\<open>getVersion\<close> observes at the end is at least the version at the start.
\<close>

theorem version_monotone_admissible:
  "admissible ops l \<Longrightarrow> getVersion l \<le> getVersion (vwl_run ops l)"
proof (induction ops arbitrary: l)
  case Nil
  then show ?case by simp
next
  case (Cons op ops)
  then have "getVersion l \<le> getVersion (vwl_step op l)"
    and "getVersion (vwl_step op l) \<le> getVersion (vwl_run ops (vwl_step op l))"
    by (simp_all add: step_mono)
  then show ?case by simp
qed

text \<open>
  C7, an admissible run: a lock at version 5 is taken, set to version 7 and released; it
  ends at version 8.
\<close>

theorem version_monotone_admissible_witness:
  "admissible [Lock, SetVersion 7, Unlock] \<lparr>version_and_lock = 10\<rparr>
   \<and> getVersion \<lparr>version_and_lock = 10\<rparr> = 5
   \<and> getVersion (vwl_run [Lock, SetVersion 7, Unlock] \<lparr>version_and_lock = 10\<rparr>) = 8"
  using version_monotone_admissible
    [of "[Lock, SetVersion 7, Unlock]" "\<lparr>version_and_lock = 10\<rparr>"]
  by (simp add: lock_def unlock_def setVersion_def getVersion_def mask_1u_def)

text \<open>
  C7 as stated fails: \<^verbatim>\<open>setVersion\<close> stores whatever version it is given. A lock at
  version 5 that is taken, set to version 0 and released is observed at version 1.
\<close>

theorem setVersion_lowers_version:
  "getVersion \<lparr>version_and_lock = 10\<rparr> = 5
   \<and> getVersion (vwl_run [Lock, SetVersion 0, Unlock] \<lparr>version_and_lock = 10\<rparr>) = 1"
  by (simp add: lock_def unlock_def setVersion_def getVersion_def mask_1u_def)

section \<open>\<^verbatim>\<open>tm_end\<close>: the commit protocol\<close>

lemma stripe_locks_upd [simp]: "stripe (s\<lparr>locks := f\<rparr>) a = stripe s a"
  by (simp add: stripe_def)

lemma stripe_gvc_upd [simp]: "stripe (s\<lparr>gvc := g\<rparr>) a = stripe s a"
  by (simp add: stripe_def)

lemma stripe_mem_upd [simp]: "stripe (s\<lparr>mem := m\<rparr>) a = stripe s a"
  by (simp add: stripe_def)

text \<open>
  Phase 3 in one statement: the locks taken are distinct stripes that were free, each now
  has its lock bit set, nothing else of the state has changed, and the loop succeeds only
  when it has taken the stripe of every entry of the write set.
\<close>

lemma lock_write_set_props:
  assumes "lock_write_set s ws h = (ok, held, s1)"
  shows "\<exists>new L. held = h @ new \<and> distinct new
           \<and> (\<forall>i \<in> set new. \<not> isLocked (locks s i))
           \<and> (\<forall>i. L i = (if i \<in> set new
                  then (locks s i)\<lparr>version_and_lock := version_and_lock (locks s i) OR 1\<rparr>
                  else locks s i))
           \<and> s1 = s\<lparr>locks := L\<rparr>
           \<and> (if ok then new = map (\<lambda>kv. stripe s (fst kv)) ws
               else length new < length ws)"
  using assms
proof (induction ws arbitrary: s h)
  case Nil
  then show ?case by auto
next
  case (Cons kv ws)
  let ?i = "stripe s (fst kv)"
  show ?case
  proof (cases "isLocked (locks s ?i)")
    case True
    with Cons.prems have "held = h" and "s1 = s\<lparr>locks := locks s\<rparr>" and "\<not> ok"
      by (auto simp: lock_iff Let_def)
    then show ?thesis by (intro exI [of _ "[]"] exI [of _ "locks s"]) simp
  next
    case False
    let ?s' = "s\<lparr>locks := (locks s)(?i := (locks s ?i)\<lparr>version_and_lock := version_and_lock (locks s ?i) OR 1\<rparr>)\<rparr>"
    from False Cons.prems have rec: "lock_write_set ?s' ws (h @ [?i]) = (ok, held, s1)"
      by (simp add: lock_iff Let_def)
    from Cons.IH [OF rec] obtain new L where
      n1: "held = (h @ [?i]) @ new" and n2: "distinct new"
      and n3: "\<forall>j \<in> set new. \<not> isLocked (locks ?s' j)"
      and n4: "\<forall>j. L j = (if j \<in> set new
                  then (locks ?s' j)\<lparr>version_and_lock := version_and_lock (locks ?s' j) OR 1\<rparr>
                  else locks ?s' j)"
      and n5: "s1 = ?s'\<lparr>locks := L\<rparr>"
      and n6: "if ok then new = map (\<lambda>kv. stripe ?s' (fst kv)) ws else length new < length ws"
      by blast
    have locked: "isLocked (locks ?s' ?i)"
      by (simp add: isLocked_iff_odd or_one_eq)
    with n3 have notin: "?i \<notin> set new" by blast
    have "held = h @ (?i # new)" using n1 by simp
    moreover have "distinct (?i # new)" using n2 notin by simp
    moreover have "\<forall>j \<in> set (?i # new). \<not> isLocked (locks s j)"
    proof
      fix j assume j: "j \<in> set (?i # new)"
      show "\<not> isLocked (locks s j)"
      proof (cases "j = ?i")
        case True then show ?thesis using False by simp
      next
        case False
        then have "j \<in> set new" using j by simp
        with n3 have "\<not> isLocked (locks ?s' j)" by blast
        then show ?thesis using False by simp
      qed
    qed
    moreover have "\<forall>j. L j = (if j \<in> set (?i # new)
                  then (locks s j)\<lparr>version_and_lock := version_and_lock (locks s j) OR 1\<rparr>
                  else locks s j)"
      using n4 notin by auto
    moreover have "s1 = s\<lparr>locks := L\<rparr>" using n5 by simp
    moreover have "if ok then ?i # new = map (\<lambda>kv. stripe s (fst kv)) (kv # ws)
               else length (?i # new) < length (kv # ws)"
      using n6 by (auto split: if_splits)
    ultimately show ?thesis by blast
  qed
qed

lemma lock_write_set_frame:
  assumes "lock_write_set s ws h = (ok, held, s1)"
  shows "mem s1 = mem s" and "gvc s1 = gvc s" and "NUM_LOCKS s1 = NUM_LOCKS s"
proof -
  from lock_write_set_props [OF assms] obtain L where e: "s1 = s\<lparr>locks := L\<rparr>" by blast
  show "mem s1 = mem s" by (simp add: e)
  show "gvc s1 = gvc s" by (simp add: e)
  show "NUM_LOCKS s1 = NUM_LOCKS s" by (simp add: e)
qed



lemma commit_write_set_gvc [simp]: "gvc (commit_write_set s ws wv) = gvc s"
  by (induction ws arbitrary: s) (simp_all add: Let_def)

lemma commit_write_set_NUM_LOCKS [simp]: "NUM_LOCKS (commit_write_set s ws wv) = NUM_LOCKS s"
  by (induction ws arbitrary: s) (simp_all add: Let_def)

lemma commit_write_set_mem:
  "distinct (map fst ws) \<Longrightarrow>
     mem (commit_write_set s ws wv) a =
       (case map_of ws a of Some w \<Rightarrow> val w | None \<Rightarrow> mem s a)"
proof (induction ws arbitrary: s)
  case Nil
  then show ?case by simp
next
  case (Cons kv ws)
  obtain k w where kv: "kv = (k, w)" by (cases kv)
  from Cons.prems kv have notin: "k \<notin> fst ` set ws" and d: "distinct (map fst ws)" by auto
  from notin have none: "map_of ws k = None" by (simp add: map_of_eq_None_iff)
  show ?case
    using Cons.IH [OF d] none kv by (auto simp: Let_def split: option.splits)
qed

lemma commit_write_set_locks:
  "locks (commit_write_set s ws wv) i =
     (if i \<in> (\<lambda>kv. stripe s (fst kv)) ` set ws then setVersion wv (locks s i) else locks s i)"
proof (induction ws arbitrary: s)
  case Nil
  then show ?case by simp
next
  case (Cons kv ws)
  show ?case
    by (simp add: Cons.IH Let_def setVersion_def)
qed

lemma validate_read_set_iff:
  "validate_read_set vr s rs b \<longleftrightarrow> list_all (\<lambda>a. vr s a b) rs"
  by (induction rs) auto

text \<open>Every \<^verbatim>\<open>return\<close> of \<^verbatim>\<open>tm_end\<close> is \<^verbatim>\<open>return false\<close>.\<close>

lemma tm_end_never_true: "fst (tm_end vr fhl s txn) = False"
  by (simp add: tm_end_def Let_def split: prod.splits)

text \<open>
  \<^verbatim>\<open>tm_end\<close> never reads \<^verbatim>\<open>txn->rv\<close>: the bound it passes to \<^verbatim>\<open>validateRead\<close> is
  \<^verbatim>\<open>wv + 1\<close>, whatever the helper does with it.
\<close>

lemma tm_end_ignores_rv:
  "tm_end vr fhl s (txn\<lparr>rv := r\<rparr>) =
     (case tm_end vr fhl s txn of (b, s', t) \<Rightarrow> (b, s', map_option (rv_update (\<lambda>_. r)) t))"
  by (simp add: tm_end_def Let_def split: prod.splits)


lemma tm_end_commit_mem:
  assumes "tm_end vr fhl s txn = (r, s', None)" and "distinct (map fst (write_set txn))"
  shows "mem s' a = (case map_of (write_set txn) a of Some w \<Rightarrow> val w | None \<Rightarrow> mem s a)"
proof -
  obtain ok held s1 where l: "lock_write_set s (write_set txn) [] = (ok, held, s1)"
    by (cases "lock_write_set s (write_set txn) []") auto
  have m: "mem s1 = mem s" by (rule lock_write_set_frame [OF l])
  from assms l have "s' = (commit_write_set (s1\<lparr>gvc := gvc s1 + 1\<rparr>) (write_set txn) (gvc s1))
      \<lparr>locks := fhl held (locks (commit_write_set (s1\<lparr>gvc := gvc s1 + 1\<rparr>) (write_set txn) (gvc s1)))\<rparr>"
    by (auto simp: tm_end_def Let_def split: if_splits)
  then have "mem s' a = mem (commit_write_set (s1\<lparr>gvc := gvc s1 + 1\<rparr>) (write_set txn) (gvc s1)) a"
    by simp
  then show ?thesis using m by (simp add: commit_write_set_mem [OF assms(2)] split: option.splits)
qed

lemma lock_write_set_success:
  assumes "lock_write_set s ws [] = (True, held, s1)"
  shows "held = map (\<lambda>kv. stripe s (fst kv)) ws" and "distinct held"
proof -
  from lock_write_set_props [OF assms] obtain new where
    a: "held = [] @ new" and b: "distinct new"
    and c: "if True then new = map (\<lambda>kv. stripe s (fst kv)) ws else length new < length ws"
    by blast
  from a c show "held = map (\<lambda>kv. stripe s (fst kv)) ws" by simp
  from a b show "distinct held" by simp
qed

text \<open>
  C6, as the code has it: a commit whose write set holds two addresses of the same stripe
  never gets through phase 3. The lock loop fails; \<^verbatim>\<open>tm_end\<close> passes the locks it has
  taken to \<^verbatim>\<open>freeHeldLocks\<close>, whose result is the lock table it leaves, and returns false
  with the transaction not committed (its context is kept), no store to memory and the
  clock not ticked. This holds whatever \<^verbatim>\<open>validateRead\<close> and \<^verbatim>\<open>freeHeldLocks\<close> do.
\<close>

theorem same_stripe_commit_aborts:
  assumes "(a, wa) \<in> set (write_set txn)" and "(b, wb) \<in> set (write_set txn)"
    and "a \<noteq> b" and "stripe s a = stripe s b"
  shows "\<not> fst (lock_write_set s (write_set txn) [])
         \<and> fst (tm_end validateRead freeHeldLocks s txn) = False
         \<and> snd (snd (tm_end validateRead freeHeldLocks s txn)) = Some txn
         \<and> mem (fst (snd (tm_end validateRead freeHeldLocks s txn))) = mem s
         \<and> gvc (fst (snd (tm_end validateRead freeHeldLocks s txn))) = gvc s
         \<and> locks (fst (snd (tm_end validateRead freeHeldLocks s txn)))
             = freeHeldLocks (fst (snd (lock_write_set s (write_set txn) [])))
                 (locks (snd (snd (lock_write_set s (write_set txn) []))))"
proof -
  obtain ok held s1 where l: "lock_write_set s (write_set txn) [] = (ok, held, s1)"
    by (cases "lock_write_set s (write_set txn) []") auto
  have "\<not> ok"
  proof
    assume ok
    with l have l': "lock_write_set s (write_set txn) [] = (True, held, s1)" by simp
    have "distinct (map (\<lambda>kv. stripe s (fst kv)) (write_set txn))"
      using lock_write_set_success [OF l'] by simp
    then have "inj_on (\<lambda>kv. stripe s (fst kv)) (set (write_set txn))"
      by (simp add: distinct_map)
    from inj_onD [OF this _ assms(1) assms(2)] assms(4) have "(a, wa) = (b, wb)"
      by simp
    with assms(3) show False by simp
  qed
  with l have "tm_end validateRead freeHeldLocks s txn
      = (False, s1\<lparr>locks := freeHeldLocks held (locks s1)\<rparr>, Some txn)"
    by (simp add: tm_end_def)
  then show ?thesis
    using l \<open>\<not> ok\<close> by (simp add: lock_write_set_frame [OF l])
qed




text \<open>
  What \<^verbatim>\<open>tm_end\<close> itself does to the locks of a commit, whatever the two helpers do: the
  table it hands to \<^verbatim>\<open>freeHeldLocks\<close> holds, for every written stripe, the word
  \<^verbatim>\<open>wv << 1 | 1\<close> with \<^verbatim>\<open>wv = gvc.fetch_add(1)\<close>, the clock before the increment; the
  stripe is in the list it passes, and the clock is one higher afterwards.
\<close>

lemma tm_end_commit_locks:
  assumes c: "tm_end validateRead freeHeldLocks s txn = (r, s', None)"
    and w: "(a, wo) \<in> set (write_set txn)"
  shows "\<exists>held tbl. locks s' = freeHeldLocks held tbl \<and> distinct held
           \<and> stripe s a \<in> set held
           \<and> tbl (stripe s a) = \<lparr>version_and_lock = push_bit 1 (gvc s) OR 1\<rparr>
           \<and> gvc s' = gvc s + 1"
proof -
  obtain ok held s1 where l: "lock_write_set s (write_set txn) [] = (ok, held, s1)"
    by (cases "lock_write_set s (write_set txn) []") auto
  have ok: ok using c l by (auto simp: tm_end_def Let_def split: if_splits)
  with l have l': "lock_write_set s (write_set txn) [] = (True, held, s1)" by simp
  note hs = lock_write_set_success [OF l']
  note fr = lock_write_set_frame [OF l]
  let ?s3 = "commit_write_set (s1\<lparr>gvc := gvc s1 + 1\<rparr>) (write_set txn) (gvc s1)"
  have s': "s' = ?s3\<lparr>locks := freeHeldLocks held (locks ?s3)\<rparr>"
    using c l ok by (auto simp: tm_end_def Let_def split: if_splits)
  have st: "stripe (s1\<lparr>gvc := gvc s1 + 1\<rparr>) = stripe s"
    by (rule ext) (simp add: stripe_def fr)
  have st1: "stripe s1 x = stripe s x" for x by (simp add: stripe_def fr)
  have inh: "stripe s a \<in> set held" using hs(1) w by force
  have "locks ?s3 (stripe s a)
      = setVersion (gvc s) (locks (s1\<lparr>gvc := gvc s1 + 1\<rparr>) (stripe s a))"
    using inh hs(1) by (simp add: commit_write_set_locks st st1 fr)
  then have "locks ?s3 (stripe s a) = \<lparr>version_and_lock = push_bit 1 (gvc s) OR 1\<rparr>"
    by (simp add: setVersion_def)
  moreover have "locks s' = freeHeldLocks held (locks ?s3)" by (simp add: s')
  moreover have "gvc s' = gvc s + 1" by (simp add: s' fr)
  ultimately show ?thesis using inh hs(2) by blast
qed

lemma setVersion_word: "version_and_lock (setVersion v l) = 2 * v + 1"
  by (simp add: setVersion_def push_bit_eq_mult mult.commute or_one_eq)


text \<open>
  Were the missing helper to release each lock through the source's \<^verbatim>\<open>unlock()\<close>, which
  adds one to the version, a commit would leave every stripe it wrote at the value of the
  clock after the increment, as long as the clock is below \<open>2^31\<close>: beyond that the
  32-bit mask of \<^verbatim>\<open>unlock()\<close> cuts the version. The helper is a parameter here and the
  release through \<^verbatim>\<open>unlock()\<close> a hypothesis on it.
\<close>

lemma unlock_setVersion_small:
  assumes "v < 2 ^ 31"
  shows "getVersion (unlock (setVersion v l)) = v + 1" and "\<not> isLocked (unlock (setVersion v l))"
proof -
  have u: "unat v < 2 ^ 31" using assms by (simp add: word_less_nat_alt)
  then have "unat (2 * v + 1) = 2 * unat v + 1" by (simp add: unat_word_ariths)
  with u have w: "version_and_lock (setVersion v l) < 2 ^ 32"
    by (simp add: setVersion_word word_less_nat_alt)
  have "v < 2 ^ 63" using u by (simp add: word_less_nat_alt)
  then have g: "getVersion (setVersion v l) = v" by (rule getVersion_setVersion)
  show "getVersion (unlock (setVersion v l)) = v + 1"
    using unlock_small(1) [OF w] g by simp
  show "\<not> isLocked (unlock (setVersion v l))" by (rule unlock_small(2) [OF w])
qed

lemma commit_version_if_release_is_unlock:
  assumes rel: "\<And>held tbl i. distinct held \<Longrightarrow>
                  freeHeldLocks held tbl i = (if i \<in> set held then unlock (tbl i) else tbl i)"
    and c: "tm_end validateRead freeHeldLocks s txn = (r, s', None)"
    and small: "gvc s < 2 ^ 31"
    and w: "(a, wo) \<in> set (write_set txn)"
  shows "gvc s' = gvc s + 1 \<and> getVersion (locks s' (stripe s a)) = gvc s + 1
         \<and> \<not> isLocked (locks s' (stripe s a))"
proof -
  from tm_end_commit_locks [OF c w] obtain held tbl where
    t: "locks s' = freeHeldLocks held tbl" and d: "distinct held"
    and i: "stripe s a \<in> set held"
    and v: "tbl (stripe s a) = \<lparr>version_and_lock = push_bit 1 (gvc s) OR 1\<rparr>"
    and g: "gvc s' = gvc s + 1"
    by blast
  have sv: "tbl (stripe s a) = setVersion (gvc s) (tbl (stripe s a))"
    by (simp add: v setVersion_def)
  have "locks s' (stripe s a) = unlock (tbl (stripe s a))"
    using i by (simp add: t rel [OF d])
  then have "locks s' (stripe s a) = unlock (setVersion (gvc s) (tbl (stripe s a)))"
    using sv by simp
  then show ?thesis using g unlock_setVersion_small [OF small] by simp
qed

text \<open>
  Under the same hypothesis an aborting commit leaves every lock it had taken free with
  its word raised by 2, the version one higher (lock words below \<open>2^32\<close>).
\<close>

lemma or1_and_mask_1u:
  assumes a: "(w :: 64 word) AND mask 32 = w" and b: "w AND 1 = 0"
  shows "(w OR 1) AND mask_1u = w"
  unfolding mask_1u_split
  by (metis (no_types, lifting) a and.left_commute b bit.conj_cancel_right
      bit.conj_disj_distrib2 bit.conj_zero_right bit.disj_cancel_left word_and_max)

lemma unlock_after_lock:
  assumes "\<not> isLocked l" and "version_and_lock l < 2 ^ 32"
  shows "unlock (l\<lparr>version_and_lock := version_and_lock l OR 1\<rparr>)
         = l\<lparr>version_and_lock := version_and_lock l + 2\<rparr>"
proof -
  have a: "version_and_lock l AND mask 32 = version_and_lock l"
    using assms(2) by (simp add: less_mask_eq)
  have b: "version_and_lock l AND 1 = 0" using assms(1) by (simp add: isLocked_def)
  show ?thesis by (simp add: unlock_def Let_def or1_and_mask_1u [OF a b])
qed

lemma abort_version_if_release_is_unlock:
  assumes rel: "\<And>held tbl i. distinct held \<Longrightarrow>
                  freeHeldLocks held tbl i = (if i \<in> set held then unlock (tbl i) else tbl i)"
    and ab: "tm_end validateRead freeHeldLocks s txn = (r, s', Some t)"
    and small: "\<forall>i. version_and_lock (locks s i) < 2 ^ 32"
  shows "locks s' i =
           (if i \<in> set (fst (snd (lock_write_set s (write_set txn) [])))
            then (locks s i)\<lparr>version_and_lock := version_and_lock (locks s i) + 2\<rparr>
            else locks s i)"
proof -
  obtain ok held s1 where l: "lock_write_set s (write_set txn) [] = (ok, held, s1)"
    by (cases "lock_write_set s (write_set txn) []") auto
  from lock_write_set_props [OF l] obtain new L where
    h: "held = [] @ new" and d: "distinct new"
    and free: "\<forall>i \<in> set new. \<not> isLocked (locks s i)"
    and L: "\<forall>i. L i = (if i \<in> set new
                  then (locks s i)\<lparr>version_and_lock := version_and_lock (locks s i) OR 1\<rparr>
                  else locks s i)"
    and s1: "s1 = s\<lparr>locks := L\<rparr>"
    by blast
  have held: "held = new" using h by simp
  have tbl: "locks s' = freeHeldLocks held L"
    using ab l s1 by (auto simp: tm_end_def Let_def split: if_splits)
  have dh: "distinct held" using d held by simp
  have "locks s' i =
               (if i \<in> set held
                then (locks s i)\<lparr>version_and_lock := version_and_lock (locks s i) + 2\<rparr>
                else locks s i)"
  proof (cases "i \<in> set held")
    case True
    then have "\<not> isLocked (locks s i)" using free held by blast
    moreover have "version_and_lock (locks s i) < 2 ^ 32" using small by blast
    ultimately show ?thesis
      using True L held by (simp add: tbl rel [OF d] unlock_after_lock)
  next
    case False
    then show ?thesis using L held by (simp add: tbl rel [OF d])
  qed
  then show ?thesis using l by simp
qed

lemmas eval_defs = tm_end_def lock_def unlock_def unlock_restore_def setVersion_def
  getVersion_def isLocked_def mask_1u_def stripe_def st0_def Let_def validateRead_spec_def

text \<open>
  C1 fails on the code: the transaction that wrote \<open>0xAA\<close> to the word at 4096 commits
  (the value is stored, the clock ticks, the context is deleted), and \<^verbatim>\<open>tm_end\<close>
  returns false.
\<close>

theorem tm_end_commit_returns_false:
  "fst (tm_end validateRead_spec freeHeldLocks_spec st0 tx_single_write) = False
   \<and> snd (snd (tm_end validateRead_spec freeHeldLocks_spec st0 tx_single_write)) = None
   \<and> mem (fst (snd (tm_end validateRead_spec freeHeldLocks_spec st0 tx_single_write))) 4096 = 0xAA
   \<and> gvc (fst (snd (tm_end validateRead_spec freeHeldLocks_spec st0 tx_single_write))) = 1"
  by (simp add: eval_defs tx_single_write_def)



text \<open>
  C3 fails on the code: the transaction read the word at 4096 at \<open>rv = 5\<close>, the stripe
  is now at version 6, so a validation against \<open>rv\<close> rejects the read; \<^verbatim>\<open>tm_end\<close>
  validates against \<^verbatim>\<open>wv + 1 = 7\<close> and commits.
\<close>

theorem tm_end_commits_stale_read:
  "getVersion (locks st_stale (stripe st_stale 4096)) = 6
   \<and> rv tx_stale_read = 5
   \<and> \<not> validateRead_spec st_stale 4096 (rv tx_stale_read)
   \<and> snd (snd (tm_end validateRead_spec freeHeldLocks_spec st_stale tx_stale_read)) = None
   \<and> mem (fst (snd (tm_end validateRead_spec freeHeldLocks_spec st_stale tx_stale_read))) 4104
       = 0xAA"
  by (simp add: eval_defs tx_stale_read_def st_stale_def)



text \<open>
  C6 as stated fails: the words at 4096 and 5096 share stripe 96, every lock is free, and
  the commit of a transaction that wrote both aborts with nothing stored.
\<close>

theorem same_stripe_commit_fails:
  "stripe st0 4096 = stripe st0 5096
   \<and> snd (snd (tm_end validateRead_spec freeHeldLocks_spec st0 tx_same_stripe))
       = Some tx_same_stripe
   \<and> mem (fst (snd (tm_end validateRead_spec freeHeldLocks_spec st0 tx_same_stripe))) 4096 = 0
   \<and> mem (fst (snd (tm_end validateRead_spec freeHeldLocks_spec st0 tx_same_stripe))) 5096 = 0"
  by (simp add: eval_defs tx_same_stripe_def)

text \<open>
  C6, the transaction that wrote the words at 4096 and 5096: the lock loop has taken
  stripe 96 for the first entry and fails on it for the second, and the list passed to
  \<^verbatim>\<open>freeHeldLocks\<close> is that one lock.
\<close>

theorem same_stripe_commit_aborts_witness:
  "(4096, \<lparr>source = 64, val = 1\<rparr>) \<in> set (write_set tx_same_stripe)
   \<and> (5096, \<lparr>source = 72, val = 2\<rparr>) \<in> set (write_set tx_same_stripe)
   \<and> (4096 :: addr) \<noteq> 5096
   \<and> stripe st0 4096 = stripe st0 5096
   \<and> fst (snd (lock_write_set st0 (write_set tx_same_stripe) [])) = [96]
   \<and> \<not> fst (lock_write_set st0 (write_set tx_same_stripe) [])
   \<and> fst (tm_end validateRead_spec freeHeldLocks_spec st0 tx_same_stripe) = False
   \<and> snd (snd (tm_end validateRead_spec freeHeldLocks_spec st0 tx_same_stripe))
       = Some tx_same_stripe
   \<and> mem (fst (snd (tm_end validateRead_spec freeHeldLocks_spec st0 tx_same_stripe))) = mem st0
   \<and> gvc (fst (snd (tm_end validateRead_spec freeHeldLocks_spec st0 tx_same_stripe))) = gvc st0
   \<and> locks (fst (snd (tm_end validateRead_spec freeHeldLocks_spec st0 tx_same_stripe)))
       = freeHeldLocks_spec (fst (snd (lock_write_set st0 (write_set tx_same_stripe) [])))
           (locks (snd (snd (lock_write_set st0 (write_set tx_same_stripe) []))))"
proof -
  have a: "(4096, \<lparr>source = 64, val = 1\<rparr>) \<in> set (write_set tx_same_stripe)"
    and b: "(5096, \<lparr>source = 72, val = 2\<rparr>) \<in> set (write_set tx_same_stripe)"
    by (simp_all add: tx_same_stripe_def)
  have c: "(4096 :: addr) \<noteq> 5096" by simp
  have d: "stripe st0 4096 = stripe st0 5096" by (simp add: stripe_def st0_def)
  have h: "fst (snd (lock_write_set st0 (write_set tx_same_stripe) [])) = [96]"
    by (simp add: eval_defs tx_same_stripe_def)
  from same_stripe_commit_aborts [OF a b c d, of validateRead_spec freeHeldLocks_spec] a b c d h
  show ?thesis by blast
qed

section \<open>\<^verbatim>\<open>tm_read\<close>\<close>

lemma word_at_0 [simp]: "word_at a 0 = a"
  by (simp add: word_at_def)

text \<open>
  Every failure return of \<^verbatim>\<open>tm_read\<close> comes right after \<^verbatim>\<open>delete txn\<close>: a read that
  returns false has destroyed the transaction context.
\<close>

lemma tm_read_ro_failure:
  "tm_read_ro vr s txn src tgt idxs = (False, s', t) \<Longrightarrow> t = None"
  by (induction idxs arbitrary: s) (auto simp: Let_def split: if_splits)

lemma tm_read_rw_failure:
  "tm_read_rw vr s txn src tgt idxs = (False, s', t) \<Longrightarrow> t = None"
  by (induction idxs arbitrary: s txn) (auto simp: Let_def split: if_splits)

lemma tm_read_failure_destroys:
  "tm_read vr s txn src n tgt = (False, s', t) \<Longrightarrow> t = None"
  by (auto simp: tm_read_def Let_def split: if_splits
      dest: tm_read_ro_failure tm_read_rw_failure)

text \<open>
  C5, as the code has it: in a read-write transaction, a one-word read of an address
  present in the write set is validated against the lock of its stripe with bound \<open>rv\<close>
  before and after the copy, like any other read. When both validations pass it returns
  true, the target receives the buffered value (taken from the write set, not from the
  shared word) and the address is inserted into the read set; when one fails it returns
  false and the transaction is destroyed.
\<close>

theorem read_own_write:
  assumes "\<not> is_ro txn" and "map_of (write_set txn) a = Some w"
    and "size_p div tm_align s = 1"
  shows "tm_read validateRead s txn a size_p tgt =
     (if \<not> validateRead s a (rv txn) then (False, s, None)
      else if \<not> validateRead (s\<lparr>mem := (mem s)(tgt := val w)\<rparr>) a (rv txn)
           then (False, s\<lparr>mem := (mem s)(tgt := val w)\<rparr>, None)
           else (True, s\<lparr>mem := (mem s)(tgt := val w)\<rparr>,
                 Some (txn\<lparr>read_set := List.insert a (read_set txn)\<rparr>)))"
  using assms by (simp add: tm_read_def Let_def)

text \<open>C5, the read of the word at 4096 after the write of \<open>0x11\<close> to it.\<close>

theorem read_own_write_witness:
  "\<not> is_ro tx_buffered
   \<and> map_of (write_set tx_buffered) 4096 = Some \<lparr>source = 64, val = 0x11\<rparr>
   \<and> 8 div tm_align st0 = 1
   \<and> tm_read validateRead_spec st0 tx_buffered 4096 8 128
       = (True, st0\<lparr>mem := (mem st0)(128 := 0x11)\<rparr>, Some (tx_buffered\<lparr>read_set := [4096]\<rparr>))"
  using read_own_write [of tx_buffered 4096 "\<lparr>source = 64, val = 0x11\<rparr>" 8 st0 validateRead_spec 128]
  by (simp add: tx_buffered_def tm_align_def eval_defs)

text \<open>
  C5 as stated fails: the address 4096 is in the write set and the read set is empty; after
  a successful read of it the read set is \<open>[4096]\<close>, and when stripe 96 is held by
  another transaction the same read fails its validation and returns false.
\<close>

theorem read_own_write_validates_and_records:
  "map_of (write_set tx_buffered) 4096 = Some \<lparr>source = 64, val = 0x11\<rparr>
   \<and> read_set tx_buffered = []
   \<and> fst (tm_read validateRead_spec st0 tx_buffered 4096 8 128) = True
   \<and> map_option read_set (snd (snd (tm_read validateRead_spec st0 tx_buffered 4096 8 128)))
       = Some [4096]
   \<and> fst (tm_read validateRead_spec
            (st0\<lparr>locks := (locks st0)(96 := \<lparr>version_and_lock = 1\<rparr>)\<rparr>) tx_buffered 4096 8 128)
       = False"
  by (simp add: tx_buffered_def tm_align_def tm_read_def eval_defs)


section \<open>\<^verbatim>\<open>tm_write\<close>\<close>

text \<open>\<^verbatim>\<open>tm_write\<close> has one return statement, \<^verbatim>\<open>return true\<close>.\<close>

lemma tm_write_never_fails: "fst (tm_write s txn src n dst) = True"
  by (simp add: tm_write_def)


lemma map_fst_assign: "map fst (assign k v ps) = map fst ps"
  by (induction ps) auto

lemma map_of_assign:
  "map_of ps k = Some u \<Longrightarrow> map_of (assign k v ps) = (map_of ps)(k \<mapsto> v)"
  by (induction ps) (auto simp: fun_eq_iff)

lemma map_of_insert_or_assign: "map_of (insert_or_assign k v ps) = (map_of ps)(k \<mapsto> v)"
proof (cases "map_of ps k")
  case None
  then show ?thesis by (simp add: insert_or_assign_def)
next
  case (Some u)
  then show ?thesis by (simp add: insert_or_assign_def map_of_assign)
qed

lemma distinct_insert_or_assign:
  assumes "distinct (map fst ps)"
  shows "distinct (map fst (insert_or_assign k v ps))"
proof (cases "map_of ps k")
  case None
  then have "k \<notin> fst ` set ps" by (simp add: map_of_eq_None_iff)
  with assms None show ?thesis by (simp add: insert_or_assign_def)
next
  case (Some u)
  with assms show ?thesis by (simp add: insert_or_assign_def map_fst_assign)
qed

lemma tm_write_words_props:
  "distinct (map fst (write_set txn)) \<Longrightarrow>
   \<exists>ws. tm_write_words s txn src dst idxs = txn\<lparr>write_set := ws\<rparr>
     \<and> distinct (map fst ws)
     \<and> map_of ws =
         fold (\<lambda>i m. m(word_at dst i \<mapsto> \<lparr>source = word_at src i, val = mem s (word_at src i)\<rparr>))
           idxs (map_of (write_set txn))"
proof (induction idxs arbitrary: txn)
  case Nil
  then show ?case by (intro exI [of _ "write_set txn"]) simp
next
  case (Cons i idxs)
  let ?w = "\<lparr>source = word_at src i, val = mem s (word_at src i)\<rparr>"
  let ?t = "txn\<lparr>write_set := insert_or_assign (word_at dst i) ?w (write_set txn)\<rparr>"
  have d: "distinct (map fst (write_set ?t))"
    using Cons.prems by (simp add: distinct_insert_or_assign)
  from Cons.IH [OF d] obtain ws where
    a: "tm_write_words s ?t src dst idxs = ?t\<lparr>write_set := ws\<rparr>"
    and b: "distinct (map fst ws)"
    and c: "map_of ws =
         fold (\<lambda>i m. m(word_at dst i \<mapsto> \<lparr>source = word_at src i, val = mem s (word_at src i)\<rparr>))
           idxs (map_of (write_set ?t))"
    by blast
  have "tm_write_words s txn src dst (i # idxs) = txn\<lparr>write_set := ws\<rparr>"
    using a by (simp add: Let_def)
  moreover have "map_of ws =
         fold (\<lambda>i m. m(word_at dst i \<mapsto> \<lparr>source = word_at src i, val = mem s (word_at src i)\<rparr>))
           (i # idxs) (map_of (write_set txn))"
    using c by (simp add: map_of_insert_or_assign del: fun_upd_apply)
  ultimately show ?case using b by blast
qed

text \<open>
  \<^verbatim>\<open>tm_write\<close> returns true and leaves the state as it was; it changes only the write
  set of the transaction, where the words at \<open>dst + 8 * i\<close> for
  \<open>i = 0, \<dots>, n div align - 1\<close>, in order, are inserted or overwrite the entry of their
  address (a later write to an address replaces the earlier one), and the keys stay
  distinct. When a commit of the resulting transaction succeeds, every address of the
  write set holds the value of its entry, the last one written, and every other word is
  unchanged.
\<close>

lemma tm_write_buffers_last_value:
  assumes "distinct (map fst (write_set txn))"
  shows "\<exists>ws. tm_write s txn src n dst = (True, s, Some (txn\<lparr>write_set := ws\<rparr>))
            \<and> distinct (map fst ws)
            \<and> map_of ws =
                fold (\<lambda>i m. m(word_at dst i \<mapsto>
                               \<lparr>source = word_at src i, val = mem s (word_at src i)\<rparr>))
                  [0..<n div tm_align s] (map_of (write_set txn))
            \<and> (tm_end validateRead freeHeldLocks sc (txn\<lparr>write_set := ws\<rparr>) = (r, s', None) \<longrightarrow>
                 mem s' a = (case map_of ws a of Some w \<Rightarrow> val w | None \<Rightarrow> mem sc a))"
proof -
  from tm_write_words_props [OF assms, of s src dst "[0..<n div tm_align s]"]
  obtain ws where
    a0: "tm_write_words s txn src dst [0..<n div tm_align s] = txn\<lparr>write_set := ws\<rparr>"
    and b: "distinct (map fst ws)"
    and c: "map_of ws =
                fold (\<lambda>i m. m(word_at dst i \<mapsto>
                               \<lparr>source = word_at src i, val = mem s (word_at src i)\<rparr>))
                  [0..<n div tm_align s] (map_of (write_set txn))"
    by blast
  have a: "tm_write s txn src n dst = (True, s, Some (txn\<lparr>write_set := ws\<rparr>))"
    by (simp add: tm_write_def Let_def a0)
  have d: "distinct (map fst (write_set (txn\<lparr>write_set := ws\<rparr>)))" using b by simp
  have "tm_end validateRead freeHeldLocks sc (txn\<lparr>write_set := ws\<rparr>) = (r, s', None) \<longrightarrow>
                 mem s' a = (case map_of ws a of Some w \<Rightarrow> val w | None \<Rightarrow> mem sc a)"
    using tm_end_commit_mem [OF _ d, of validateRead freeHeldLocks sc r s' a] by simp
  with a b c show ?thesis by blast
qed

text \<open>
  A second write to the same word: the transaction holds \<open>0x11\<close> for the word at 4096,
  writes \<open>0x22\<close> to it and commits; the word holds \<open>0x22\<close>.
\<close>

lemma second_write_wins:
  "distinct (map fst (write_set tx_buffered))
   \<and> map_of (write_set tx_buffered) 4096 = Some \<lparr>source = 64, val = 0x11\<rparr>
   \<and> tm_write st_src tx_buffered 72 8 4096
       = (True, st_src,
          Some (tx_buffered\<lparr>write_set := [(4096, \<lparr>source = 72, val = 0x22\<rparr>)]\<rparr>))
   \<and> snd (snd (tm_end validateRead_spec freeHeldLocks_spec st_src
                  (tx_buffered\<lparr>write_set := [(4096, \<lparr>source = 72, val = 0x22\<rparr>)]\<rparr>))) = None
   \<and> mem (fst (snd (tm_end validateRead_spec freeHeldLocks_spec st_src
                  (tx_buffered\<lparr>write_set := [(4096, \<lparr>source = 72, val = 0x22\<rparr>)]\<rparr>)))) 4096
       = 0x22"
proof -
  let ?t2 = "tx_buffered\<lparr>write_set := [(4096, \<lparr>source = 72, val = 0x22\<rparr>)]\<rparr>"
  let ?R = "tm_end validateRead_spec freeHeldLocks_spec st_src ?t2"
  have d: "distinct (map fst (write_set tx_buffered))"
    and m: "map_of (write_set tx_buffered) 4096 = Some \<lparr>source = 64, val = 0x11\<rparr>"
    by (simp_all add: tx_buffered_def)
  have w: "tm_write st_src tx_buffered 72 8 4096 = (True, st_src, Some ?t2)"
    by (simp add: tm_write_def tm_align_def st_src_def st0_def tx_buffered_def
        word_at_def insert_or_assign_def Let_def)
  have c: "snd (snd ?R) = None"
    by (simp add: eval_defs st_src_def tx_buffered_def)
  then have e: "?R = (fst ?R, fst (snd ?R), None)" by (metis prod.collapse)
  from tm_write_buffers_last_value [OF d, of st_src 72 8 4096 validateRead_spec
      freeHeldLocks_spec st_src "fst ?R" "fst (snd ?R)" 4096]
  obtain ws where
    w': "tm_write st_src tx_buffered 72 8 4096 = (True, st_src, Some (tx_buffered\<lparr>write_set := ws\<rparr>))"
    and imp: "tm_end validateRead_spec freeHeldLocks_spec st_src (tx_buffered\<lparr>write_set := ws\<rparr>)
               = (fst ?R, fst (snd ?R), None) \<longrightarrow>
              mem (fst (snd ?R)) 4096 = (case map_of ws 4096 of Some w \<Rightarrow> val w | None \<Rightarrow> mem st_src 4096)"
    by blast
  from w w' have "Some (tx_buffered\<lparr>write_set := ws\<rparr>) = Some ?t2"
    by (simp only: prod.inject)
  then have "write_set (tx_buffered\<lparr>write_set := ws\<rparr>) = write_set ?t2"
    by (simp only: option.inject)
  then have ws: "ws = [(4096, \<lparr>source = 72, val = 0x22\<rparr>)]" by simp
  from imp e have "mem (fst (snd ?R)) 4096
      = (case map_of ws 4096 of Some w \<Rightarrow> val w | None \<Rightarrow> mem st_src 4096)"
    unfolding ws by blast
  then have "mem (fst (snd ?R)) 4096 = 0x22" by (simp add: ws)
  with d m w c show ?thesis by blast
qed

text \<open>
  The words of a range are distinct addresses (up to \<open>2^61\<close> words, where the byte
  offset stays below \<open>2^64\<close>).
\<close>

lemma word_at_inj:
  assumes "i < 2 ^ 61" and "j < 2 ^ 61" and "word_at a i = word_at a j"
  shows "i = j"
proof -
  have u: "unat (8 * of_nat k :: 64 word) = 8 * k" if "k < 2 ^ 61" for k :: nat
  proof -
    have "unat (of_nat k :: 64 word) = k" using that by (simp add: unat_of_nat)
    then show ?thesis using that by (simp add: unat_word_ariths)
  qed
  from assms(3) have "(8 * of_nat i :: 64 word) = 8 * of_nat j"
    by (simp add: word_at_def)
  then have "unat (8 * of_nat i :: 64 word) = unat (8 * of_nat j :: 64 word)" by simp
  then show ?thesis using u [OF assms(1)] u [OF assms(2)] by simp
qed

lemma fold_upd_covers:
  assumes "\<And>i j. i < j \<Longrightarrow> j < k \<Longrightarrow> K i \<noteq> K j" and "i < k"
  shows "fold (\<lambda>i m. m(K i \<mapsto> E i)) [0..<k] m0 (K i) = Some (E i)"
  using assms
proof (induction k)
  case 0
  then show ?case by simp
next
  case (Suc k)
  let ?f = "\<lambda>i m. m(K i \<mapsto> E i)"
  have step: "fold ?f [0..<Suc k] m0 = (fold ?f [0..<k] m0)(K k \<mapsto> E k)"
    by (simp del: fun_upd_apply)
  show ?case
  proof (cases "i = k")
    case True
    then show ?thesis unfolding step by (simp only: fun_upd_same)
  next
    case False
    then have ik: "i < k" using Suc.prems(2) by simp
    then have ne: "K i \<noteq> K k" using Suc.prems(1) [of i k] by simp
    have ih: "fold ?f [0..<k] m0 (K i) = Some (E i)"
    proof (rule Suc.IH [OF _ ik])
      fix p q assume "p < q" and "q < k"
      then show "K p \<noteq> K q" using Suc.prems(1) [of p q] by simp
    qed
    have "((fold ?f [0..<k] m0)(K k \<mapsto> E k)) (K i) = fold ?f [0..<k] m0 (K i)"
      using ne by (rule fun_upd_other)
    also note ih
    finally show ?thesis unfolding step .
  qed
qed

text \<open>
  With alignment 8, the size of a word, \<^verbatim>\<open>tm_write\<close> buffers every word of the range: the
  word \<open>i\<close> of the target is in the write set with the value of the word \<open>i\<close> of the
  source.
\<close>

lemma tm_write_covers_range_align_8:
  assumes d: "distinct (map fst (write_set txn))" and al: "tm_align s = 8"
    and n: "n div 8 \<le> 2 ^ 61" and i: "i < n div 8"
  shows "\<exists>ws. tm_write s txn src n dst = (True, s, Some (txn\<lparr>write_set := ws\<rparr>))
           \<and> map_of ws (word_at dst i)
               = Some \<lparr>source = word_at src i, val = mem s (word_at src i)\<rparr>"
proof -
  from tm_write_buffers_last_value [OF d, of s src n dst] obtain ws where
    a: "tm_write s txn src n dst = (True, s, Some (txn\<lparr>write_set := ws\<rparr>))"
    and c: "map_of ws =
                fold (\<lambda>i m. m(word_at dst i \<mapsto>
                               \<lparr>source = word_at src i, val = mem s (word_at src i)\<rparr>))
                  [0..<n div tm_align s] (map_of (write_set txn))"
    by blast
  have inj: "word_at dst p \<noteq> word_at dst q" if "p < q" and "q < n div 8" for p q
    using word_at_inj [of p q dst] that n by auto
  have "map_of ws (word_at dst i)
      = Some \<lparr>source = word_at src i, val = mem s (word_at src i)\<rparr>"
    unfolding c al
    by (rule fold_upd_covers [where K = "word_at dst"
          and E = "\<lambda>i. \<lparr>source = word_at src i, val = mem s (word_at src i)\<rparr>", OF inj i])
  with a show ?thesis by blast
qed

text \<open>
  C9 fails on the code when the alignment is not the size of a word: the loop of
  \<^verbatim>\<open>tm_write\<close> runs \<^verbatim>\<open>size / tm_align(shared)\<close> times over 8-byte words. On a region of
  alignment 16, a write of 32 bytes to 4096 buffers the words at 4096 and 4104 only; the
  words at 4112 and 4120, which the write covers, never reach the write set.
\<close>

theorem tm_write_skips_words_align_16:
  "tm_align st_align16 = 16
   \<and> tm_write st_align16 tx_fresh 64 32 4096
       = (True, st_align16,
          Some (tx_fresh\<lparr>write_set := [(4104, \<lparr>source = 72, val = 0x22\<rparr>),
                                       (4096, \<lparr>source = 64, val = 0x11\<rparr>)]\<rparr>))
   \<and> map_of [(4104 :: addr, \<lparr>source = 72, val = 0x22\<rparr>),
              (4096, \<lparr>source = 64, val = 0x11\<rparr>)] 4112 = None
   \<and> map_of [(4104 :: addr, \<lparr>source = 72, val = 0x22\<rparr>),
              (4096, \<lparr>source = 64, val = 0x11\<rparr>)] 4120 = None"
  by (simp add: tm_write_def tm_align_def st_align16_def st_src_def st0_def tx_fresh_def
      word_at_def insert_or_assign_def Let_def upt_rec)

section \<open>\<^verbatim>\<open>tm_alloc\<close>\<close>

text \<open>
  C8 fails on the code for \<^verbatim>\<open>tm_alloc\<close>: with the list lock held, \<^verbatim>\<open>tm_alloc\<close> returns
  \<^verbatim>\<open>Alloc::abort\<close> and the transaction context is still there.
\<close>

theorem tm_alloc_abort_keeps_transaction:
  "isLocked (list_lock (st0\<lparr>list_lock := \<lparr>version_and_lock = 1\<rparr>\<rparr>))
   \<and> fst (tm_alloc (st0\<lparr>list_lock := \<lparr>version_and_lock = 1\<rparr>\<rparr>) tx_fresh 8 128 8192)
       = Alloc_abort
   \<and> snd (snd (tm_alloc (st0\<lparr>list_lock := \<lparr>version_and_lock = 1\<rparr>\<rparr>) tx_fresh 8 128 8192))
       = Some tx_fresh"
  by (simp add: tm_alloc_def eval_defs)

text \<open>\<^verbatim>\<open>tm_alloc\<close> never touches the transaction, on any path.\<close>

lemma tm_alloc_keeps_transaction: "snd (snd (tm_alloc s txn n tgt seg)) = Some txn"
  by (simp add: tm_alloc_def Let_def)

section \<open>\<^verbatim>\<open>tm_free\<close>\<close>

text \<open>
  C10: \<^verbatim>\<open>tm_free\<close> returns false for every region state, transaction and address, and
  leaves the state (the segment list with it) as it was, so no segment is ever freed
  through it.
\<close>

theorem tm_free_returns_false:
  "fst (tm_free s txn target_p) = False \<and> fst (snd (tm_free s txn target_p)) = s"
  by (simp add: tm_free_def)

text \<open>
  In particular a segment that \<^verbatim>\<open>tm_alloc\<close> has just handed out stays in the segment list
  when \<^verbatim>\<open>tm_free\<close> is called on the address that was returned.
\<close>

lemma tm_free_after_alloc:
  assumes "tm_alloc s txn n tgt seg = (Alloc_success, s1, t)"
  shows "mem s1 tgt = seg \<and> seg \<in> set (seg_list s1)
         \<and> fst (tm_free s1 txn (mem s1 tgt)) = False
         \<and> seg \<in> set (seg_list (fst (snd (tm_free s1 txn (mem s1 tgt)))))"
  using assms
  by (auto simp: tm_alloc_def tm_free_def Let_def split: if_splits)

end
